theory Spec2Isabelle
  imports Main "HOL-Library.Word"
begin

unbundle bit_operations_syntax

section \<open>JavaScript strings and the string operations the client uses\<close>

text \<open>
  A JavaScript string is a sequence of UTF-16 code units. The client only ever compares
  code units, cuts strings at fixed offsets and joins them, so a string is modelled as the
  list of its code units, each a natural number below \<open>0x10000\<close>.
\<close>

type_synonym jsstring = "nat list"
type_synonym byte = "8 word"

definition str :: "string \<Rightarrow> jsstring" where
  "str s = map of_char s"

definition LF :: nat where
  "LF = 10"

text \<open>\<^verbatim>\<open>s.split('\n')\<close>: always at least one segment; the segments hold no line feed.\<close>

fun split_nl :: "jsstring \<Rightarrow> jsstring list" where
  "split_nl [] = [[]]"
| "split_nl (c # cs) =
     (if c = LF then [] # split_nl cs
      else (c # hd (split_nl cs)) # tl (split_nl cs))"

text \<open>\<^verbatim>\<open>s.startsWith(p)\<close> and \<^verbatim>\<open>s.slice(n)\<close> for \<open>n \<ge> 0\<close>.\<close>

definition startsWith :: "jsstring \<Rightarrow> jsstring \<Rightarrow> bool" where
  "startsWith s p = (take (length p) s = p)"

definition slice :: "nat \<Rightarrow> jsstring \<Rightarrow> jsstring" where
  "slice n s = drop n s"

text \<open>
  \<^verbatim>\<open>s.trim()\<close> removes ECMAScript WhiteSpace and LineTerminator code units from both
  ends.
\<close>

definition is_js_space :: "nat \<Rightarrow> bool" where
  "is_js_space c =
     (c = 0x9 \<or> c = 0xA \<or> c = 0xB \<or> c = 0xC \<or> c = 0xD \<or> c = 0x20 \<or> c = 0xA0
      \<or> c = 0x1680 \<or> (0x2000 \<le> c \<and> c \<le> 0x200A) \<or> c = 0x2028 \<or> c = 0x2029
      \<or> c = 0x202F \<or> c = 0x205F \<or> c = 0x3000 \<or> c = 0xFEFF)"

definition trim :: "jsstring \<Rightarrow> jsstring" where
  "trim s = rev (dropWhile is_js_space (rev (dropWhile is_js_space s)))"

text \<open>\<^verbatim>\<open>String(n)\<close> for a non-negative integer: its decimal digits.\<close>

function number_to_string :: "nat \<Rightarrow> jsstring" where
  "number_to_string n =
     (if n < 10 then [48 + n] else number_to_string (n div 10) @ [48 + n mod 10])"
  by pat_completeness auto
termination
  by (relation "measure id") auto

declare number_to_string.simps [simp del]

section \<open>The platform's streaming UTF-8 decoder\<close>

text \<open>
  \<^verbatim>\<open>new TextDecoder()\<close> followed by \<^verbatim>\<open>decoder.decode(value, { stream: true })\<close>.
  The decoder is the platform's, not the repository's; it is modelled after the UTF-8
  decoder of the WHATWG Encoding Standard in replacement mode: the handler's five state
  variables, and the flag recording whether the byte order mark has been looked for.
\<close>

record utf8_decoder =
  code_point :: nat
  bytes_seen :: nat
  bytes_needed :: nat
  lower_boundary :: byte
  upper_boundary :: byte
  bom_seen :: bool

definition new_decoder :: utf8_decoder where
  "new_decoder =
     \<lparr>code_point = 0, bytes_seen = 0, bytes_needed = 0,
      lower_boundary = 0x80, upper_boundary = 0xBF, bom_seen = False\<rparr>"

definition reset_handler :: "utf8_decoder \<Rightarrow> utf8_decoder" where
  "reset_handler d =
     d\<lparr>code_point := 0, bytes_seen := 0, bytes_needed := 0,
       lower_boundary := 0x80, upper_boundary := 0xBF\<rparr>"

text \<open>The handler when no bytes are pending: the byte starts a new character.\<close>

definition lead_byte :: "utf8_decoder \<Rightarrow> byte \<Rightarrow> utf8_decoder \<times> nat list" where
  "lead_byte d b =
     (if b \<le> 0x7F then (d, [unat b])
      else if 0xC2 \<le> b \<and> b \<le> 0xDF then
        (d\<lparr>bytes_needed := 1, code_point := unat (b AND 0x1F)\<rparr>, [])
      else if 0xE0 \<le> b \<and> b \<le> 0xEF then
        (d\<lparr>lower_boundary := (if b = 0xE0 then 0xA0 else lower_boundary d),
           upper_boundary := (if b = 0xED then 0x9F else upper_boundary d),
           bytes_needed := 2, code_point := unat (b AND 0xF)\<rparr>, [])
      else if 0xF0 \<le> b \<and> b \<le> 0xF4 then
        (d\<lparr>lower_boundary := (if b = 0xF0 then 0x90 else lower_boundary d),
           upper_boundary := (if b = 0xF4 then 0x8F else upper_boundary d),
           bytes_needed := 3, code_point := unat (b AND 0x7)\<rparr>, [])
      else (d, [0xFFFD]))"

text \<open>
  One byte through the handler. A byte outside the expected continuation range is an
  error (U+FFFD), the state is reset and the same byte is read again as a lead byte.
\<close>

definition utf8_handler :: "utf8_decoder \<Rightarrow> byte \<Rightarrow> utf8_decoder \<times> nat list" where
  "utf8_handler d b =
     (if bytes_needed d = 0 then lead_byte d b
      else if \<not> (lower_boundary d \<le> b \<and> b \<le> upper_boundary d) then
        (let (d', out) = lead_byte (reset_handler d) b in (d', 0xFFFD # out))
      else
        (let d1 = d\<lparr>lower_boundary := 0x80, upper_boundary := 0xBF,
                    code_point := code_point d * 64 + unat (b AND 0x3F),
                    bytes_seen := bytes_seen d + 1\<rparr>
         in if bytes_seen d1 \<noteq> bytes_needed d1 then (d1, [])
            else (reset_handler d1, [code_point d1])))"

fun process_queue :: "utf8_decoder \<Rightarrow> byte list \<Rightarrow> utf8_decoder \<times> nat list" where
  "process_queue d [] = (d, [])"
| "process_queue d (b # bs) =
     (let (d1, out1) = utf8_handler d b;
          (d2, out2) = process_queue d1 bs
      in (d2, out1 @ out2))"

text \<open>A scalar value as UTF-16 code units.\<close>

definition utf16 :: "nat \<Rightarrow> jsstring" where
  "utf16 cp =
     (if cp < 0x10000 then [cp]
      else [0xD800 + (cp - 0x10000) div 0x400, 0xDC00 + (cp - 0x10000) mod 0x400])"

text \<open>
  Serialising the decoded scalar values: the first one ever produced is dropped when it
  is the byte order mark U+FEFF.
\<close>

fun serialize :: "utf8_decoder \<Rightarrow> nat list \<Rightarrow> utf8_decoder \<times> jsstring" where
  "serialize d [] = (d, [])"
| "serialize d (item # items) =
     (if \<not> bom_seen d then
        (let (d', out) = serialize (d\<lparr>bom_seen := True\<rparr>) items
         in if item = 0xFEFF then (d', out) else (d', utf16 item @ out))
      else
        (let (d', out) = serialize d items in (d', utf16 item @ out)))"

text \<open>
  \<^verbatim>\<open>decoder.decode(value, { stream: true })\<close>: end-of-queue is not given to the
  handler, so bytes of an unfinished character stay pending in the decoder.
\<close>

definition decode_stream :: "utf8_decoder \<Rightarrow> byte list \<Rightarrow> utf8_decoder \<times> jsstring" where
  "decode_stream d input = (let (d1, out) = process_queue d input in serialize d1 out)"

text \<open>
  \<^verbatim>\<open>decoder.decode()\<close> with the stream flag unset, the flushing call: a pending
  unfinished character becomes U+FFFD. The client's \<^verbatim>\<open>response.text()\<close> decodes the
  whole body this way.
\<close>

definition end_of_queue :: "utf8_decoder \<Rightarrow> utf8_decoder \<times> nat list" where
  "end_of_queue d =
     (if bytes_needed d \<noteq> 0 then (d\<lparr>bytes_needed := 0\<rparr>, [0xFFFD]) else (d, []))"

definition decode_flush :: "utf8_decoder \<Rightarrow> byte list \<Rightarrow> jsstring" where
  "decode_flush d input =
     (let (d1, out1) = process_queue d input;
          (d2, out2) = end_of_queue d1
      in snd (serialize d2 (out1 @ out2)))"

section \<open>The SSE line parser of \<open>verifyClaimStream\<close>\<close>

definition event_prefix :: jsstring where
  "event_prefix = str ''event: ''"

definition data_prefix :: jsstring where
  "data_prefix = str ''data: ''"

definition message :: jsstring where
  "message = str ''message''"

text \<open>
  The body of the \<^verbatim>\<open>for (const line of lines)\<close> loop inside the read loop, on the pair
  \<open>(currentEvent, currentData)\<close>: what it yields, if anything, and the new pair. The frame
  yielded is the pair given to the \<^verbatim>\<open>try { yield ... JSON.parse ... }\<close> block.
\<close>

type_synonym frame = "jsstring \<times> jsstring"

definition process_line :: "jsstring \<Rightarrow> frame \<Rightarrow> frame option \<times> frame" where
  "process_line line st =
     (case st of (currentEvent, currentData) \<Rightarrow>
        if startsWith line event_prefix then (None, (trim (slice 7 line), currentData))
        else if startsWith line data_prefix then (None, (currentEvent, slice 6 line))
        else if line = [] \<and> currentData \<noteq> [] then
          (Some (currentEvent, currentData), (message, []))
        else (None, (currentEvent, currentData)))"

fun for_lines :: "(frame \<Rightarrow> 'e) \<Rightarrow> jsstring list \<Rightarrow> frame \<Rightarrow> 'e list" where
  "for_lines emit [] st = []"
| "for_lines emit (line # lines) st =
     (case process_line line st of
        (None, st') \<Rightarrow> for_lines emit lines st'
      | (Some f, st') \<Rightarrow> emit f # for_lines emit lines st')"

text \<open>
  The \<^verbatim>\<open>while (true)\<close> read loop over the chunks the reader delivers before
  \<open>done\<close>. \<open>currentEvent\<close> and \<open>currentData\<close> are declared inside the loop body, so
  every chunk starts from \<open>('message', '')\<close>; only the decoder and \<open>buffer\<close> survive an
  iteration. The result is what was yielded and the final \<open>buffer\<close>. \<open>on_chunk\<close> is
  the part of one iteration after the decoded text has been appended to \<open>buffer\<close>: the
  split, the \<open>pop\<close> of the last segment and the line loop.
\<close>

definition on_chunk :: "(frame \<Rightarrow> 'e) \<Rightarrow> jsstring \<Rightarrow> 'e list \<times> jsstring" where
  "on_chunk emit buffer =
     (let lines = split_nl buffer
      in (for_lines emit (butlast lines) (message, []), last lines))"

fun read_loop ::
  "(frame \<Rightarrow> 'e) \<Rightarrow> byte list list \<Rightarrow> utf8_decoder \<Rightarrow> jsstring \<Rightarrow> 'e list \<times> jsstring" where
  "read_loop emit [] decoder buffer = ([], buffer)"
| "read_loop emit (value # reads) decoder buffer =
     (let (decoder', decoded) = decode_stream decoder value;
          (yielded, buffer') = on_chunk emit (buffer @ decoded);
          (later, final) = read_loop emit reads decoder' buffer'
      in (yielded @ later, final))"

text \<open>The loop after the read loop, over what is left in \<open>buffer\<close>.\<close>

definition flush_line :: "jsstring \<Rightarrow> frame \<Rightarrow> frame" where
  "flush_line line st =
     (case st of (currentEvent, currentData) \<Rightarrow>
        if startsWith line event_prefix then (trim (slice 7 line), currentData)
        else if startsWith line data_prefix then (currentEvent, slice 6 line)
        else (currentEvent, currentData))"

definition process_remaining :: "(frame \<Rightarrow> 'e) \<Rightarrow> jsstring \<Rightarrow> 'e list" where
  "process_remaining emit buffer =
     (if trim buffer \<noteq> [] then
        (let lines = split_nl buffer;
             (currentEvent, currentData) = foldl (\<lambda>st line. flush_line line st) (message, []) lines
         in if currentData \<noteq> [] then [emit (currentEvent, currentData)] else [])
      else [])"

definition stream_body :: "(frame \<Rightarrow> 'e) \<Rightarrow> byte list list \<Rightarrow> 'e list" where
  "stream_body emit reads =
     (let (yielded, buffer) = read_loop emit reads new_decoder []
      in yielded @ process_remaining emit buffer)"

text \<open>The frames of a body: the \<open>(currentEvent, currentData)\<close> pairs at each yield.\<close>

definition sse_frames :: "byte list list \<Rightarrow> frame list" where
  "sse_frames reads = stream_body (\<lambda>f. f) reads"

section \<open>Parsed JSON values and the events yielded\<close>

text \<open>
  What \<^verbatim>\<open>JSON.parse\<close> returns. A JavaScript number is an IEEE-754 double and its
  arithmetic is the platform's, so the type of numbers is a type parameter \<open>'n\<close> and the
  operations on numbers that the client relies on are passed in as a record. An object is
  the list of its own properties.
\<close>

datatype 'n json =
    JNull
  | JBool bool
  | JNum 'n
  | JStr jsstring
  | JArr "'n json list"
  | JObj "(jsstring \<times> 'n json) list"

text \<open>
  The platform's numbers: the values \<open>+0\<close>, \<open>1\<close> and \<open>NaN\<close>, the addition of two
  numbers, whether a number is truthy (neither a zero nor \<open>NaN\<close>) and the string a number
  converts to.
\<close>

record 'n number_ops =
  num_zero :: 'n
  num_one :: 'n
  num_nan :: 'n
  num_add :: "'n \<Rightarrow> 'n \<Rightarrow> 'n"
  num_truthy :: "'n \<Rightarrow> bool"
  num_to_string :: "'n \<Rightarrow> jsstring"

record 'n sse_event =
  event :: jsstring
  data :: "'n json"

text \<open>
  \<^verbatim>\<open>JSON.parse\<close> is the platform's: it is a parameter of the model, \<open>None\<close> standing for
  the SyntaxError it throws. The \<^verbatim>\<open>try { yield {..., data: JSON.parse(currentData)} }
  catch { yield {..., data: currentData} }\<close> block, identical at both places:
\<close>

definition yield_event :: "(jsstring \<Rightarrow> 'n json option) \<Rightarrow> frame \<Rightarrow> 'n sse_event" where
  "yield_event JSON_parse f =
     (case f of (currentEvent, currentData) \<Rightarrow>
        (case JSON_parse currentData of
           Some v \<Rightarrow> \<lparr>event = currentEvent, data = v\<rparr>
         | None \<Rightarrow> \<lparr>event = currentEvent, data = JStr currentData\<rparr>))"

section \<open>\<open>verifyClaimStream\<close>\<close>

text \<open>
  The response \<^verbatim>\<open>fetch\<close> resolved to: its status and its body, \<open>None\<close> for a null
  body, otherwise the chunks the reader delivers before \<open>done\<close>.
\<close>

record http_response =
  status :: nat
  body :: "byte list list option"

definition ok :: "http_response \<Rightarrow> bool" where
  "ok response = (200 \<le> status response \<and> status response \<le> 299)"

definition response_text :: "http_response \<Rightarrow> jsstring" where
  "response_text response =
     (case body response of
        None \<Rightarrow> []
      | Some reads \<Rightarrow> decode_flush new_decoder (concat reads))"

text \<open>
  What is thrown: an \<open>Error\<close> the client builds with its message, or the TypeError of the
  language when a value cannot be converted to a primitive.
\<close>

datatype js_error = Error jsstring | TypeError

text \<open>
  The generator: \<open>Inl\<close> is the error thrown before anything is yielded, \<open>Inr\<close> the
  events yielded until the generator returns. The request options only shape the request
  and are left out; the model starts from the response. A \<^verbatim>\<open>fetch\<close> or a read that
  rejects is outside it: the body is a stream that delivers all its chunks.
\<close>

definition verifyClaimStream ::
  "(jsstring \<Rightarrow> 'n json option) \<Rightarrow> http_response \<Rightarrow> js_error + 'n sse_event list" where
  "verifyClaimStream JSON_parse response =
     (if \<not> ok response then
        Inl (Error (str ''WebCite API error ('' @ number_to_string (status response)
                      @ str ''): '' @ response_text response))
      else case body response of
        None \<Rightarrow> Inl (Error (str ''No response body received from streaming endpoint''))
      | Some reads \<Rightarrow> Inr (stream_body (yield_event JSON_parse) reads))"

section \<open>The language's conversions and \<open>+\<close> on parsed values\<close>

text \<open>\<^verbatim>\<open>v && typeof v === 'object'\<close>: objects and arrays, not \<open>null\<close>.\<close>

fun is_object :: "'n json \<Rightarrow> bool" where
  "is_object (JObj props) = True"
| "is_object (JArr items) = True"
| "is_object v = False"

text \<open>
  \<^verbatim>\<open>data.key\<close> on an object value; \<open>None\<close> is \<open>undefined\<close>. An array has none
  of the properties the collector reads. \<^verbatim>\<open>JSON.parse\<close> gives an object each name
  once; in a list that repeats a name the first entry is the one read.
\<close>

fun property :: "'n json \<Rightarrow> jsstring \<Rightarrow> 'n json option" where
  "property (JObj props) key = map_of props key"
| "property v key = None"

fun truthy :: "'n number_ops \<Rightarrow> 'n json \<Rightarrow> bool" where
  "truthy ops JNull = False"
| "truthy ops (JBool b) = b"
| "truthy ops (JNum n) = num_truthy ops n"
| "truthy ops (JStr s) = (s \<noteq> [])"
| "truthy ops (JArr items) = True"
| "truthy ops (JObj props) = True"

text \<open>
  \<^verbatim>\<open>Array.prototype.join\<close> on the converted elements, separated by commas. Elements
  are converted in order, so the first conversion that throws decides.
\<close>

fun join_strings :: "(js_error + jsstring) list \<Rightarrow> js_error + jsstring" where
  "join_strings [] = Inr []"
| "join_strings [r] = r"
| "join_strings (r # r' # rs) =
     (case r of
        Inl e \<Rightarrow> Inl e
      | Inr s \<Rightarrow>
          (case join_strings (r' # rs) of
             Inl e \<Rightarrow> Inl e
           | Inr t \<Rightarrow> Inr (s @ str '','' @ t)))"

text \<open>
  ToString on a parsed value. A parsed object has no callable property of its own: it
  converts through \<^verbatim>\<open>Object.prototype.toString\<close>, unless it has an own property
  \<open>toString\<close>, which hides that method and makes the conversion throw a TypeError
  (\<open>valueOf\<close> returns the object itself, whether inherited or hidden). An array converts
  through \<open>join\<close>, where \<open>null\<close> elements give the empty string.
\<close>

fun js_to_string :: "'n number_ops \<Rightarrow> 'n json \<Rightarrow> js_error + jsstring" where
  "js_to_string ops JNull = Inr (str ''null'')"
| "js_to_string ops (JBool b) = Inr (if b then str ''true'' else str ''false'')"
| "js_to_string ops (JNum n) = Inr (num_to_string ops n)"
| "js_to_string ops (JStr s) = Inr s"
| "js_to_string ops (JObj props) =
     (if map_of props (str ''toString'') = None then Inr (str ''[object Object]'')
      else Inl TypeError)"
| "js_to_string ops (JArr items) =
     join_strings (map (\<lambda>v. if v = JNull then Inr [] else js_to_string ops v) items)"

text \<open>Primitive values: the operands of \<open>+\<close> after ToPrimitive.\<close>

datatype 'n primitive =
    PUndefined
  | PNull
  | PBool bool
  | PNum 'n
  | PStr jsstring

text \<open>
  ToPrimitive on the value of a property, \<open>None\<close> being \<open>undefined\<close>: objects and arrays
  become their strings, the rest is primitive already.
\<close>

fun to_primitive :: "'n number_ops \<Rightarrow> 'n json option \<Rightarrow> js_error + 'n primitive" where
  "to_primitive ops None = Inr PUndefined"
| "to_primitive ops (Some JNull) = Inr PNull"
| "to_primitive ops (Some (JBool b)) = Inr (PBool b)"
| "to_primitive ops (Some (JNum n)) = Inr (PNum n)"
| "to_primitive ops (Some (JStr s)) = Inr (PStr s)"
| "to_primitive ops (Some (JArr items)) =
     (case js_to_string ops (JArr items) of Inl e \<Rightarrow> Inl e | Inr s \<Rightarrow> Inr (PStr s))"
| "to_primitive ops (Some (JObj props)) =
     (case js_to_string ops (JObj props) of Inl e \<Rightarrow> Inl e | Inr s \<Rightarrow> Inr (PStr s))"

fun primitive_to_string :: "'n number_ops \<Rightarrow> 'n primitive \<Rightarrow> jsstring" where
  "primitive_to_string ops PUndefined = str ''undefined''"
| "primitive_to_string ops PNull = str ''null''"
| "primitive_to_string ops (PBool b) = (if b then str ''true'' else str ''false'')"
| "primitive_to_string ops (PNum n) = num_to_string ops n"
| "primitive_to_string ops (PStr s) = s"

text \<open>
  The running \<open>sum\<close> of the reduction is a number or, once a string has been added, a
  string. \<open>sum + r\<close> for a primitive \<open>r\<close>: concatenation when either side is a string,
  otherwise the addition of the two sides as numbers, \<open>undefined\<close> counting as \<open>NaN\<close>,
  \<open>null\<close> and \<open>false\<close> as \<open>0\<close> and \<open>true\<close> as \<open>1\<close>.
\<close>

datatype 'n js_sum = NumberSum 'n | StringSum jsstring

fun js_plus :: "'n number_ops \<Rightarrow> 'n js_sum \<Rightarrow> 'n primitive \<Rightarrow> 'n js_sum" where
  "js_plus ops (StringSum s) r = StringSum (s @ primitive_to_string ops r)"
| "js_plus ops (NumberSum a) (PStr t) = StringSum (num_to_string ops a @ t)"
| "js_plus ops (NumberSum a) PUndefined = NumberSum (num_add ops a (num_nan ops))"
| "js_plus ops (NumberSum a) PNull = NumberSum (num_add ops a (num_zero ops))"
| "js_plus ops (NumberSum a) (PBool b) =
     NumberSum (num_add ops a (if b then num_one ops else num_zero ops))"
| "js_plus ops (NumberSum a) (PNum n) = NumberSum (num_add ops a n)"

section \<open>\<open>collectStreamEvents\<close>\<close>

definition is_final_event :: "'n sse_event \<Rightarrow> bool" where
  "is_final_event e =
     ((event e = str ''complete'' \<or> event e = str ''result'' \<or> event e = str ''done'')
      \<and> is_object (data e))"

text \<open>The \<^verbatim>\<open>for await\<close> loop: the last final event's data.\<close>

fun final_event_data :: "'n sse_event list \<Rightarrow> 'n json option \<Rightarrow> 'n json option" where
  "final_event_data [] finalResult = finalResult"
| "final_event_data (e # es) finalResult =
     final_event_data es (if is_final_event e then Some (data e) else finalResult)"

text \<open>The variables of the second loop.\<close>

record 'n assembly =
  claimGroups :: "'n json list"
  creditUsage :: "'n json option"
  threadId :: "'n json"
  snapshot :: "'n json option"

definition assemble_event :: "'n number_ops \<Rightarrow> 'n assembly \<Rightarrow> 'n sse_event \<Rightarrow> 'n assembly" where
  "assemble_event ops a e =
     (if \<not> is_object (data e) then a
      else
        (let a1 = (if event e = str ''claim_group''
                   then a\<lparr>claimGroups := claimGroups a @ [data e]\<rparr> else a);
             a2 = (if event e = str ''credit_usage''
                   then a1\<lparr>creditUsage := Some (data e)\<rparr> else a1);
             a3 = (case property (data e) (str ''thread_id'') of
                     Some v \<Rightarrow> if truthy ops v then a2\<lparr>threadId := v\<rparr> else a2
                   | None \<Rightarrow> a2)
         in (case property (data e) (str ''claim_groups'') of
               Some v \<Rightarrow> if truthy ops v then a3\<lparr>snapshot := Some (data e)\<rparr> else a3
             | None \<Rightarrow> a3)))"

definition assembly0 :: "'n assembly" where
  "assembly0 = \<lparr>claimGroups = [], creditUsage = None, threadId = JStr [], snapshot = None\<rparr>"

text \<open>
  \<^verbatim>\<open>claimGroups.reduce((sum, g) => sum + g.citation_count, 0)\<close>: one step of the
  callback, and the reduction from the left. The step throws when \<open>g.citation_count\<close>
  cannot be converted to a primitive, and the reduction stops there.
\<close>

definition add_citation_count :: "'n number_ops \<Rightarrow> 'n js_sum \<Rightarrow> 'n json \<Rightarrow> js_error + 'n js_sum" where
  "add_citation_count ops acc g =
     (case to_primitive ops (property g (str ''citation_count'')) of
        Inl e \<Rightarrow> Inl e
      | Inr r \<Rightarrow> Inr (js_plus ops acc r))"

fun reduce_citation_count ::
  "'n number_ops \<Rightarrow> 'n js_sum \<Rightarrow> 'n json list \<Rightarrow> js_error + 'n js_sum" where
  "reduce_citation_count ops acc [] = Inr acc"
| "reduce_citation_count ops acc (g # gs) =
     (case add_citation_count ops acc g of
        Inl e \<Rightarrow> Inl e
      | Inr acc' \<Rightarrow> reduce_citation_count ops acc' gs)"

text \<open>
  The result: the data of an event as it came, or the object literal the function builds
  from what it accumulated.
\<close>

datatype 'n verify_result =
    FromEvent "'n json"
  | Assembled (claim_groups: "'n json list") (totalResults: "'n js_sum")
      (thread_id: "'n json") (credit_usage: "'n json option")

text \<open>
  The function takes the events the stream yields; \<open>Inl\<close> is the TypeError that escapes
  from the reduction.
\<close>

definition collectStreamEvents ::
  "'n number_ops \<Rightarrow> 'n sse_event list
     \<Rightarrow> js_error + ('n verify_result option \<times> 'n sse_event list)" where
  "collectStreamEvents ops stream =
     (let events = stream in
      case final_event_data stream None of
        Some d \<Rightarrow> Inr (Some (FromEvent d), events)
      | None \<Rightarrow>
          (let a = foldl (assemble_event ops) assembly0 events in
           case snapshot a of
             Some d \<Rightarrow> Inr (Some (FromEvent d), events)
           | None \<Rightarrow>
               if claimGroups a \<noteq> [] then
                 (case reduce_citation_count ops (NumberSum (num_zero ops)) (claimGroups a) of
                    Inl e \<Rightarrow> Inl e
                  | Inr tot \<Rightarrow>
                      Inr (Some (Assembled (claimGroups a) tot (threadId a) (creditUsage a)),
                           events))
               else Inr (None, events)))"

section \<open>What the second loop of \<open>collectStreamEvents\<close> accumulates\<close>

text \<open>
  The quantities the claims about the collector speak of, each as a function of the whole
  event list: the groups collected, the credit usage and the thread id seen last, and the
  events that carry a full snapshot.
\<close>

definition is_group_event :: "'n sse_event \<Rightarrow> bool" where
  "is_group_event e = (event e = str ''claim_group'' \<and> is_object (data e))"

definition accumulated_groups :: "'n sse_event list \<Rightarrow> 'n json list" where
  "accumulated_groups stream = map data (filter is_group_event stream)"

definition is_credit_event :: "'n sse_event \<Rightarrow> bool" where
  "is_credit_event e = (event e = str ''credit_usage'' \<and> is_object (data e))"

definition last_credit_usage :: "'n sse_event list \<Rightarrow> 'n json option" where
  "last_credit_usage stream =
     (case filter is_credit_event stream of
        [] \<Rightarrow> None
      | c # cs \<Rightarrow> Some (data (last (c # cs))))"

definition truthy_property :: "'n number_ops \<Rightarrow> 'n json \<Rightarrow> jsstring \<Rightarrow> 'n json option" where
  "truthy_property ops d key =
     (if is_object d then
        (case property d key of
           Some v \<Rightarrow> if truthy ops v then Some v else None
         | None \<Rightarrow> None)
      else None)"

definition last_thread_id :: "'n number_ops \<Rightarrow> 'n sse_event list \<Rightarrow> 'n json" where
  "last_thread_id ops stream =
     (case List.map_filter (\<lambda>e. truthy_property ops (data e) (str ''thread_id'')) stream of
        [] \<Rightarrow> JStr []
      | t # ts \<Rightarrow> last (t # ts))"

definition is_snapshot :: "'n number_ops \<Rightarrow> 'n sse_event \<Rightarrow> bool" where
  "is_snapshot ops e = (truthy_property ops (data e) (str ''claim_groups'') \<noteq> None)"

text \<open>The \<open>citation_count\<close> of a group when it is a number.\<close>

definition numeric_count :: "'n json \<Rightarrow> 'n option" where
  "numeric_count g =
     (case property g (str ''citation_count'') of
        Some (JNum n) \<Rightarrow> Some n
      | _ \<Rightarrow> None)"

section \<open>Inputs for the examples\<close>

definition ascii :: "string \<Rightarrow> byte list" where
  "ascii s = map of_char s"

text \<open>
  Numbers for the examples: the integers and \<open>NaN\<close>. On integers of magnitude below
  \<open>2^53\<close>, where the examples stay, the platform's double arithmetic is exact.
\<close>

datatype example_number = Whole int | NaN

fun example_add :: "example_number \<Rightarrow> example_number \<Rightarrow> example_number" where
  "example_add (Whole a) (Whole b) = Whole (a + b)"
| "example_add a b = NaN"

fun example_truthy :: "example_number \<Rightarrow> bool" where
  "example_truthy (Whole a) = (a \<noteq> 0)"
| "example_truthy NaN = False"

fun example_to_string :: "example_number \<Rightarrow> jsstring" where
  "example_to_string (Whole a) =
     (if a < 0 then str ''-'' @ number_to_string (nat (- a)) else number_to_string (nat a))"
| "example_to_string NaN = str ''NaN''"

definition example_ops :: "example_number number_ops" where
  "example_ops =
     \<lparr>num_zero = Whole 0, num_one = Whole 1, num_nan = NaN, num_add = example_add,
      num_truthy = example_truthy, num_to_string = example_to_string\<rparr>"

section \<open>The read loop seen from the decoded text\<close>

text \<open>
  Two auxiliary functions split the read loop into its two halves: the strings the decoder
  returns for the successive chunks, and the loop run on those strings.
\<close>

fun text_loop :: "(frame \<Rightarrow> 'e) \<Rightarrow> jsstring list \<Rightarrow> jsstring \<Rightarrow> 'e list \<times> jsstring" where
  "text_loop emit [] buffer = ([], buffer)"
| "text_loop emit (t # ts) buffer =
     (let (yielded, buffer') = on_chunk emit (buffer @ t);
          (later, final) = text_loop emit ts buffer'
      in (yielded @ later, final))"

fun decode_each :: "utf8_decoder \<Rightarrow> byte list list \<Rightarrow> jsstring list" where
  "decode_each d [] = []"
| "decode_each d (v # vs) = (let (d', t) = decode_stream d v in t # decode_each d' vs)"

text \<open>The decoder as it is after a list of chunks.\<close>

fun decoder_after :: "utf8_decoder \<Rightarrow> byte list list \<Rightarrow> utf8_decoder" where
  "decoder_after d [] = d"
| "decoder_after d (v # vs) = decoder_after (fst (decode_stream d v)) vs"

section \<open>Basic facts\<close>

lemma split_nl_nonempty [simp]: "split_nl s \<noteq> []"
  by (induction s) auto

lemma split_nl_Cons:
  "split_nl (c # cs) =
     (case split_nl cs of
        [] \<Rightarrow> [[c]]
      | l # ls \<Rightarrow> if c = LF then [] # l # ls else (c # l) # ls)"
  by (cases "split_nl cs") auto

declare split_nl.simps(2) [simp del]

lemma read_loop_text: "read_loop emit reads d buffer = text_loop emit (decode_each d reads) buffer"
  by (induction reads arbitrary: d buffer) (auto split: prod.splits)

lemma unat_of_char: "unat (of_char c :: byte) = of_char c"
proof -
  have "unat (of_char c :: byte) = unat (of_nat (of_char c) :: byte)"
    by (simp only: of_nat_of_char)
  also have "\<dots> = of_char c mod 256"
    by (simp add: unat_of_nat)
  finally show ?thesis
    by simp
qed

lemma map_unat_ascii: "map unat (ascii s) = str s"
  by (simp add: ascii_def str_def unat_of_char)

lemma process_queue_ascii:
  "bytes_needed d = 0 \<Longrightarrow> \<forall>b\<in>set bs. b \<le> 0x7F \<Longrightarrow> process_queue d bs = (d, map unat bs)"
  by (induction bs) (auto simp: utf8_handler_def lead_byte_def)

lemma serialize_ascii:
  "\<forall>c\<in>set cs. c < 0x80 \<Longrightarrow>
   serialize d cs = (if cs = [] then d else d\<lparr>bom_seen := True\<rparr>, cs)"
  by (induction cs arbitrary: d) (auto simp: utf16_def split: prod.splits)

lemma decode_stream_ascii:
  assumes "bytes_needed d = 0" "\<forall>b\<in>set bs. b \<le> 0x7F"
  shows "decode_stream d bs = (if bs = [] then d else d\<lparr>bom_seen := True\<rparr>, map unat bs)"
proof -
  have "\<forall>c\<in>set (map unat bs). c < 0x80"
    using assms(2) by (auto simp: word_le_nat_alt)
  then show ?thesis
    using assms by (simp add: decode_stream_def process_queue_ascii serialize_ascii)
qed

lemma decode_each_ascii:
  "bytes_needed d = 0 \<Longrightarrow> \<forall>v\<in>set reads. \<forall>b\<in>set v. b \<le> 0x7F \<Longrightarrow>
   decode_each d reads = map (map unat) reads"
  by (induction reads arbitrary: d) (auto simp: decode_stream_ascii)

lemma event_prefix_length: "length event_prefix = 7"
  by (simp add: event_prefix_def str_def)

lemma data_prefix_length: "length data_prefix = 6"
  by (simp add: data_prefix_def str_def)

lemma event_line [simp]: "startsWith (event_prefix @ k) event_prefix"
  by (simp add: startsWith_def)

lemma data_line [simp]: "startsWith (data_prefix @ p) data_prefix"
  by (simp add: startsWith_def)

lemma data_line_not_event [simp]: "\<not> startsWith (data_prefix @ p) event_prefix"
  by (simp add: startsWith_def data_prefix_def event_prefix_def str_def)

lemma empty_line_no_prefix [simp]:
  "\<not> startsWith [] event_prefix" "\<not> startsWith [] data_prefix"
  by (simp_all add: startsWith_def data_prefix_def event_prefix_def str_def)

lemma slice_event_line [simp]: "slice 7 (event_prefix @ k) = k"
  by (simp add: slice_def event_prefix_length)

lemma slice_data_line [simp]: "slice 6 (data_prefix @ p) = p"
  by (simp add: slice_def data_prefix_length)

lemma process_event_line: "process_line (event_prefix @ k) (ce, cd) = (None, (trim k, cd))"
  by (simp add: process_line_def)

lemma process_data_line: "process_line (data_prefix @ p) (ce, cd) = (None, (ce, p))"
  by (simp add: process_line_def)

lemma process_blank_line:
  "process_line [] (ce, cd) = (if cd \<noteq> [] then (Some (ce, cd), (message, [])) else (None, (ce, cd)))"
  by (simp add: process_line_def)

lemma for_lines_map: "for_lines emit ls st = map emit (for_lines (\<lambda>f. f) ls st)"
  by (induction ls arbitrary: st) (auto split: prod.splits option.splits)

lemma on_chunk_map:
  "on_chunk emit buffer = (map emit (fst (on_chunk (\<lambda>f. f) buffer)), snd (on_chunk (\<lambda>f. f) buffer))"
  by (simp add: on_chunk_def Let_def for_lines_map [of emit])

lemma text_loop_map:
  "text_loop emit ts buffer
     = (map emit (fst (text_loop (\<lambda>f. f) ts buffer)), snd (text_loop (\<lambda>f. f) ts buffer))"
proof (induction ts arbitrary: buffer)
  case Nil
  show ?case by simp
next
  case (Cons t ts)
  show ?case
    by (simp add: on_chunk_map [of emit] Cons.IH [of "snd (on_chunk (\<lambda>f. f) (buffer @ t))"]
        split: prod.splits)
qed

lemma process_remaining_map:
  "process_remaining emit buffer = map emit (process_remaining (\<lambda>f. f) buffer)"
  by (simp add: process_remaining_def Let_def split: prod.splits)

lemma stream_body_frames: "stream_body emit reads = map emit (sse_frames reads)"
  by (simp add: sse_frames_def stream_body_def read_loop_text text_loop_map [of emit]
      process_remaining_map [of emit] split: prod.splits)

lemma sse_frames_text:
  "sse_frames reads =
     fst (text_loop (\<lambda>f. f) (decode_each new_decoder reads) [])
     @ process_remaining (\<lambda>f. f) (snd (text_loop (\<lambda>f. f) (decode_each new_decoder reads) []))"
  by (simp add: sse_frames_def stream_body_def read_loop_text split: prod.splits)

lemma for_lines_payload: "f \<in> set (for_lines (\<lambda>f. f) ls st) \<Longrightarrow> snd f \<noteq> []"
  by (induction ls arbitrary: st)
     (auto simp: process_line_def split: prod.splits option.splits if_splits)

lemma text_loop_payload: "f \<in> set (fst (text_loop (\<lambda>f. f) ts buffer)) \<Longrightarrow> snd f \<noteq> []"
proof (induction ts arbitrary: buffer)
  case Nil
  then show ?case by simp
next
  case (Cons t ts)
  obtain y b where c: "on_chunk (\<lambda>f. f) (buffer @ t) = (y, b)"
    by (cases "on_chunk (\<lambda>f. f) (buffer @ t)")
  obtain l fin where r: "text_loop (\<lambda>f. f) ts b = (l, fin)"
    by (cases "text_loop (\<lambda>f. f) ts b")
  from Cons.prems c r have "f \<in> set y \<or> f \<in> set l"
    by simp
  then show ?case
  proof
    assume "f \<in> set y"
    with c show ?thesis
      by (auto simp: on_chunk_def Let_def dest: for_lines_payload)
  next
    assume "f \<in> set l"
    with r Cons.IH [of b] show ?thesis
      by simp
  qed
qed

lemma process_remaining_payload: "f \<in> set (process_remaining (\<lambda>f. f) buffer) \<Longrightarrow> snd f \<noteq> []"
proof -
  assume m: "f \<in> set (process_remaining (\<lambda>f. f) buffer)"
  obtain ce cd where
    st: "foldl (\<lambda>st line. flush_line line st) (message, []) (split_nl buffer) = (ce, cd)"
    by (cases "foldl (\<lambda>st line. flush_line line st) (message, []) (split_nl buffer)")
  from m st show ?thesis
    by (simp add: process_remaining_def Let_def split: if_splits)
qed

lemma sse_frames_payload: "f \<in> set (sse_frames reads) \<Longrightarrow> snd f \<noteq> []"
  by (auto simp: sse_frames_text dest: text_loop_payload process_remaining_payload)

lemma sse_frames_ascii:
  assumes "\<forall>v\<in>set reads. \<forall>b\<in>set v. b \<le> 0x7F"
  shows "sse_frames reads =
     fst (text_loop (\<lambda>f. f) (map (map unat) reads) [])
     @ process_remaining (\<lambda>f. f) (snd (text_loop (\<lambda>f. f) (map (map unat) reads) []))"
  using assms by (simp add: sse_frames_text decode_each_ascii new_decoder_def)

lemmas text_eval = on_chunk_def process_remaining_def process_line_def flush_line_def
  startsWith_def slice_def trim_def str_def event_prefix_def data_prefix_def message_def LF_def
  is_js_space_def ascii_def split_nl_Cons

lemma decode_flush_ascii:
  assumes "\<forall>b\<in>set bs. b \<le> 0x7F"
  shows "decode_flush new_decoder bs = map unat bs"
proof -
  have "\<forall>c\<in>set (map unat bs). c < 0x80"
    using assms by (auto simp: word_le_nat_alt)
  then show ?thesis
    using assms
    by (simp add: decode_flush_def process_queue_ascii end_of_queue_def serialize_ascii
        new_decoder_def)
qed

lemma final_event_data_snoc:
  "final_event_data (es @ [e]) r = (if is_final_event e then Some (data e) else final_event_data es r)"
  by (induction es arbitrary: r) auto

lemma final_event_data_filter:
  "final_event_data es r =
     (if filter is_final_event es = [] then r
      else Some (data (last (filter is_final_event es))))"
  by (induction es rule: rev_induct) (auto simp: final_event_data_snoc)

lemma assemble_event_fields:
  "claimGroups (assemble_event ops a e) = claimGroups a @ (if is_group_event e then [data e] else [])"
  "creditUsage (assemble_event ops a e) = (if is_credit_event e then Some (data e) else creditUsage a)"
  "threadId (assemble_event ops a e)
     = (case truthy_property ops (data e) (str ''thread_id'') of Some v \<Rightarrow> v | None \<Rightarrow> threadId a)"
  "snapshot (assemble_event ops a e) = (if is_snapshot ops e then Some (data e) else snapshot a)"
  by (simp_all add: assemble_event_def Let_def is_group_event_def is_credit_event_def
        is_snapshot_def truthy_property_def split: option.splits)

lemma claimGroups_foldl:
  "claimGroups (foldl (assemble_event ops) a es) = claimGroups a @ accumulated_groups es"
  by (induction es rule: rev_induct) (simp_all add: accumulated_groups_def assemble_event_fields)

lemma creditUsage_foldl:
  "creditUsage (foldl (assemble_event ops) a es)
     = (case last_credit_usage es of None \<Rightarrow> creditUsage a | Some c \<Rightarrow> Some c)"
  by (induction es rule: rev_induct)
     (simp_all add: last_credit_usage_def assemble_event_fields split: list.splits)

lemma threadId_foldl:
  "threadId (foldl (assemble_event ops) a es)
     = (case List.map_filter (\<lambda>e. truthy_property ops (data e) (str ''thread_id'')) es of
          [] \<Rightarrow> threadId a
        | t # ts \<Rightarrow> last (t # ts))"
  by (induction es rule: rev_induct)
     (simp_all add: assemble_event_fields map_filter_def split: list.splits option.splits)

lemma snapshot_foldl:
  "\<forall>e\<in>set es. \<not> is_snapshot ops e \<Longrightarrow> snapshot (foldl (assemble_event ops) a es) = snapshot a"
  by (induction es rule: rev_induct) (simp_all add: assemble_event_fields)

lemma add_numeric_count:
  "numeric_count g = Some n \<Longrightarrow>
   add_citation_count ops (NumberSum s) g = Inr (NumberSum (num_add ops s n))"
  by (auto simp: add_citation_count_def numeric_count_def split: option.splits json.splits)

lemma reduce_numeric_counts:
  "\<forall>g\<in>set gs. numeric_count g \<noteq> None \<Longrightarrow>
   reduce_citation_count ops (NumberSum s) gs
     = Inr (NumberSum (foldl (num_add ops) s (map (\<lambda>g. the (numeric_count g)) gs)))"
proof (induction gs arbitrary: s)
  case Nil
  show ?case by simp
next
  case (Cons g gs)
  from Cons.prems obtain n where n: "numeric_count g = Some n"
    by auto
  from Cons.prems have "\<forall>g\<in>set gs. numeric_count g \<noteq> None"
    by simp
  then show ?case
    by (simp add: add_numeric_count [OF n] n Cons.IH)
qed

lemma collect_without_final_event:
  assumes "\<forall>e\<in>set stream. \<not> is_final_event e"
    and "\<forall>e\<in>set stream. \<not> is_snapshot ops e"
    and "\<exists>e\<in>set stream. is_group_event e"
  shows "collectStreamEvents ops stream =
           (case reduce_citation_count ops (NumberSum (num_zero ops)) (accumulated_groups stream) of
              Inl e \<Rightarrow> Inl e
            | Inr tot \<Rightarrow>
                Inr (Some (Assembled (accumulated_groups stream) tot
                             (last_thread_id ops stream) (last_credit_usage stream)), stream))"
proof -
  let ?a = "foldl (assemble_event ops) assembly0 stream"
  from assms(1) have "filter is_final_event stream = []"
    by (simp add: filter_empty_conv)
  then have f: "final_event_data stream None = None"
    by (simp add: final_event_data_filter)
  from assms(2) have s: "snapshot ?a = None"
    by (simp add: snapshot_foldl assembly0_def)
  have g: "claimGroups ?a = accumulated_groups stream"
    by (simp add: claimGroups_foldl assembly0_def)
  from assms(3) have n: "accumulated_groups stream \<noteq> []"
    by (auto simp: accumulated_groups_def filter_empty_conv)
  have t: "threadId ?a = last_thread_id ops stream"
    by (simp add: threadId_foldl last_thread_id_def assembly0_def split: list.splits)
  have c: "creditUsage ?a = last_credit_usage stream"
    by (simp add: creditUsage_foldl assembly0_def split: option.splits)
  show ?thesis
    using n by (simp add: collectStreamEvents_def Let_def f s g t c split: sum.splits)
qed

lemma number_to_string_digit: "n < 10 \<Longrightarrow> number_to_string n = [48 + n]"
  by (subst number_to_string.simps) simp

lemmas event_eval = is_final_event_def is_group_event_def is_credit_event_def is_snapshot_def
  truthy_property_def accumulated_groups_def last_thread_id_def last_credit_usage_def
  numeric_count_def map_filter_def str_def example_ops_def

lemma process_queue_append:
  "process_queue d (xs @ ys) =
     (let (d1, o1) = process_queue d xs; (d2, o2) = process_queue d1 ys in (d2, o1 @ o2))"
  by (induction xs arbitrary: d) (auto split: prod.splits)

lemma serialize_append:
  "serialize d (xs @ ys) =
     (let (d1, o1) = serialize d xs; (d2, o2) = serialize d1 ys in (d2, o1 @ o2))"
  by (induction xs arbitrary: d) (auto split: prod.splits)

lemma lead_byte_bom:
  "lead_byte (d\<lparr>bom_seen := s\<rparr>) b = (fst (lead_byte d b)\<lparr>bom_seen := s\<rparr>, snd (lead_byte d b))"
  by (simp add: lead_byte_def)

lemma utf8_handler_bom:
  "utf8_handler (d\<lparr>bom_seen := s\<rparr>) b
     = (fst (utf8_handler d b)\<lparr>bom_seen := s\<rparr>, snd (utf8_handler d b))"
  by (simp add: utf8_handler_def lead_byte_def reset_handler_def Let_def)

lemma process_queue_bom:
  "process_queue (d\<lparr>bom_seen := s\<rparr>) bs
     = (fst (process_queue d bs)\<lparr>bom_seen := s\<rparr>, snd (process_queue d bs))"
proof (induction bs arbitrary: d)
  case Nil
  show ?case by simp
next
  case (Cons b bs)
  show ?case
    by (simp add: utf8_handler_bom Cons.IH split: prod.splits)
qed

lemma serialize_state:
  "fst (serialize d items) = d\<lparr>bom_seen := (bom_seen d \<or> items \<noteq> [])\<rparr>"
  by (induction items arbitrary: d) (simp_all add: split_beta)

lemma serialize_output:
  "bom_seen d' = bom_seen d \<Longrightarrow> snd (serialize d' items) = snd (serialize d items)"
proof (induction items arbitrary: d d')
  case Nil
  show ?case by simp
next
  case (Cons item items)
  have "snd (serialize (d'\<lparr>bom_seen := True\<rparr>) items) = snd (serialize (d\<lparr>bom_seen := True\<rparr>) items)"
    by (rule Cons.IH) simp
  moreover have "snd (serialize d' items) = snd (serialize d items)"
    by (rule Cons.IH) (rule Cons.prems)
  ultimately show ?case
    using Cons.prems by (simp add: split_beta)
qed

lemma utf8_handler_keeps_bom: "bom_seen (fst (utf8_handler d b)) = bom_seen d"
  by (simp add: utf8_handler_def lead_byte_def reset_handler_def Let_def)

lemma process_queue_keeps_bom: "bom_seen (fst (process_queue d bs)) = bom_seen d"
  by (induction bs arbitrary: d) (simp_all add: split_beta utf8_handler_keeps_bom)

lemma decode_stream_append:
  "decode_stream d (xs @ ys) =
     (fst (decode_stream (fst (decode_stream d xs)) ys),
      snd (decode_stream d xs) @ snd (decode_stream (fst (decode_stream d xs)) ys))"
proof -
  obtain d1 o1 where p1: "process_queue d xs = (d1, o1)"
    by (cases "process_queue d xs")
  obtain d2 o2 where p2: "process_queue d1 ys = (d2, o2)"
    by (cases "process_queue d1 ys")
  let ?s = "bom_seen d1 \<or> o1 \<noteq> []"
  have b: "bom_seen d2 = bom_seen d1"
    using process_queue_keeps_bom [of d1 ys] p2 by simp
  have first: "decode_stream d xs = (d1\<lparr>bom_seen := ?s\<rparr>, snd (serialize d1 o1))"
    using serialize_state [of d1 o1] by (simp add: decode_stream_def p1 prod_eq_iff)
  have q: "process_queue (d1\<lparr>bom_seen := ?s\<rparr>) ys = (d2\<lparr>bom_seen := ?s\<rparr>, o2)"
    by (simp add: process_queue_bom p2)
  have second: "decode_stream (d1\<lparr>bom_seen := ?s\<rparr>) ys = serialize (d2\<lparr>bom_seen := ?s\<rparr>) o2"
    by (simp add: decode_stream_def q)
  have e1: "fst (serialize d2 o1) = d2\<lparr>bom_seen := ?s\<rparr>"
    by (simp add: serialize_state b)
  have e2: "snd (serialize d2 o1) = snd (serialize d1 o1)"
    by (rule serialize_output) (rule b)
  have "decode_stream d (xs @ ys) = serialize d2 (o1 @ o2)"
    by (simp add: decode_stream_def process_queue_append p1 p2)
  also have "\<dots> = (fst (serialize (d2\<lparr>bom_seen := ?s\<rparr>) o2),
                    snd (serialize d1 o1) @ snd (serialize (d2\<lparr>bom_seen := ?s\<rparr>) o2))"
    using e1 e2 by (simp add: serialize_append split_beta)
  finally show ?thesis
    by (simp add: first second)
qed

lemma decode_each_concat:
  "concat (decode_each d reads) = snd (decode_stream d (concat reads))
   \<and> decoder_after d reads = fst (decode_stream d (concat reads))"
proof (induction reads arbitrary: d)
  case Nil
  show ?case by (simp add: decode_stream_def)
next
  case (Cons v vs)
  show ?case
    by (simp add: split_beta decode_stream_append Cons.IH)
qed

lemma decode_each_append:
  "decode_each d (reads @ later) = decode_each d reads @ decode_each (decoder_after d reads) later"
  by (induction reads arbitrary: d) (simp_all add: split_beta)

lemma split_nl_no_LF: "LF \<notin> set s \<Longrightarrow> split_nl s = [s]"
  by (induction s) (simp_all add: split_nl.simps(2))

lemma last_split_nl_no_LF: "LF \<notin> set (last (split_nl s))"
  by (induction s) (auto simp: split_nl_Cons split: list.splits if_splits)

lemma text_loop_append:
  "text_loop emit (ts @ us) buffer =
     (fst (text_loop emit ts buffer) @ fst (text_loop emit us (snd (text_loop emit ts buffer))),
      snd (text_loop emit us (snd (text_loop emit ts buffer))))"
  by (induction ts arbitrary: buffer) (simp_all add: split_beta)

lemma text_loop_buffer_no_LF:
  "LF \<notin> set buffer \<Longrightarrow> LF \<notin> set (snd (text_loop emit ts buffer))"
  by (induction ts arbitrary: buffer) (simp_all add: split_beta on_chunk_def Let_def last_split_nl_no_LF)

lemma text_loop_empty_chunk:
  "LF \<notin> set buffer \<Longrightarrow> text_loop emit [[]] buffer = ([], buffer)"
  by (simp add: on_chunk_def split_nl_no_LF)

lemma stream_body_text:
  "stream_body emit reads =
     fst (text_loop emit (decode_each new_decoder reads) [])
     @ process_remaining emit (snd (text_loop emit (decode_each new_decoder reads) []))"
  by (simp add: stream_body_def read_loop_text split_beta)

lemmas decoder_eval = decode_stream_def decode_flush_def end_of_queue_def utf8_handler_def
  lead_byte_def reset_handler_def utf16_def new_decoder_def ascii_def

lemma split_nl_line: "LF \<notin> set l \<Longrightarrow> split_nl (l @ LF # rest) = l # split_nl rest"
  by (induction l) (simp_all add: split_nl.simps(2))

lemma prefix_no_LF [simp]: "LF \<notin> set event_prefix" "LF \<notin> set data_prefix"
  by (simp_all add: event_prefix_def data_prefix_def str_def LF_def)

lemma for_lines_swap:
  "for_lines emit ((data_prefix @ p) # (event_prefix @ k) # [] # rest) st
     = for_lines emit ((event_prefix @ k) # (data_prefix @ p) # [] # rest) st"
  by (cases st) (simp add: process_event_line process_data_line process_blank_line)

lemma on_chunk_three_lines:
  assumes "LF \<notin> set l1" "LF \<notin> set l2"
  shows "on_chunk emit (l1 @ LF # l2 @ LF # LF # post)
           = (for_lines emit (l1 # l2 # [] # butlast (split_nl post)) (message, []),
              last (split_nl post))"
proof -
  have "split_nl (LF # post) = [] # split_nl post"
    using split_nl_line [of "[]" post] by simp
  with assms have "split_nl (l1 @ LF # l2 @ LF # LF # post) = l1 # l2 # [] # split_nl post"
    by (simp add: split_nl_line)
  then show ?thesis
    by (simp add: on_chunk_def)
qed

lemma on_chunk_swap:
  assumes "LF \<notin> set p" "LF \<notin> set k"
  shows "on_chunk emit ((data_prefix @ p) @ LF # (event_prefix @ k) @ LF # LF # post)
       = on_chunk emit ((event_prefix @ k) @ LF # (data_prefix @ p) @ LF # LF # post)"
  using assms by (simp only: on_chunk_three_lines set_append Un_iff prefix_no_LF simp_thms
      not_False_eq_True for_lines_swap)

section \<open>Order of the lines within a frame\<close>

text \<open>
  When all the lines of a frame are handled in one pass of the line loop, their order does
  not matter: \<open>data:\<close> line, \<open>event:\<close> line, blank line is handled exactly as
  \<open>event:\<close>, \<open>data:\<close>, blank, whatever the state before and whatever lines follow, and
  the later of two \<open>data:\<close> lines, or of two \<open>event:\<close> lines, replaces the earlier. The
  same holds for the text of a whole pass, split and all.
\<close>

lemma order_within_one_pass:
  "for_lines emit ((data_prefix @ p) # (event_prefix @ k) # [] # rest) st
     = for_lines emit ((event_prefix @ k) # (data_prefix @ p) # [] # rest) st
   \<and> for_lines emit ((event_prefix @ k) # (data_prefix @ p) # [] # rest) st
     = (if p \<noteq> [] then emit (trim k, p) # for_lines emit rest (message, [])
        else for_lines emit rest (trim k, []))
   \<and> for_lines emit ((data_prefix @ p0) # (data_prefix @ p) # [] # rest) st
     = for_lines emit ((data_prefix @ p) # [] # rest) st
   \<and> for_lines emit ((event_prefix @ k0) # (event_prefix @ k) # rest) st
     = for_lines emit ((event_prefix @ k) # rest) st
   \<and> (LF \<notin> set p \<and> LF \<notin> set k \<longrightarrow>
        on_chunk emit (data_prefix @ p @ LF # event_prefix @ k @ LF # LF # post)
          = on_chunk emit (event_prefix @ k @ LF # data_prefix @ p @ LF # LF # post))"
proof -
  have lines: "for_lines emit ((event_prefix @ k) # (data_prefix @ p) # [] # rest) st
     = (if p \<noteq> [] then emit (trim k, p) # for_lines emit rest (message, [])
        else for_lines emit rest (trim k, []))"
    "for_lines emit ((data_prefix @ p0) # (data_prefix @ p) # [] # rest) st
     = for_lines emit ((data_prefix @ p) # [] # rest) st"
    "for_lines emit ((event_prefix @ k0) # (event_prefix @ k) # rest) st
     = for_lines emit ((event_prefix @ k) # rest) st"
    by (cases st; simp add: process_event_line process_data_line process_blank_line)+
  have pass: "on_chunk emit (data_prefix @ p @ LF # event_prefix @ k @ LF # LF # post)
          = on_chunk emit (event_prefix @ k @ LF # data_prefix @ p @ LF # LF # post)"
    if "LF \<notin> set p" "LF \<notin> set k"
    using on_chunk_swap [OF that, of emit post] by simp
  from lines pass for_lines_swap [of emit p k rest st] show ?thesis
    by blast
qed

text \<open>
  C8. Across a chunk boundary this is lost. In one chunk, \<open>data: x\<close>, \<open>event: a\<close>, blank
  line gives the frame \<open>(a, x)\<close>, as the canonical order does. Cut between its first two
  lines, the frame in the order \<open>data:\<close>, \<open>event:\<close> gives no frame at all, and in the
  canonical order it gives \<open>(message, x)\<close>: the frames differ from each other and from
  \<open>(a, x)\<close>. Two \<open>data:\<close> lines and a blank line give \<open>(message, x)\<close> with the later
  payload in one chunk, and nothing when the blank line comes in the next chunk.
\<close>

theorem C8_frame_lines_in_two_chunks:
  "sse_frames [ascii ''data: x\<newline>event: a\<newline>\<newline>''] = [(str ''a'', str ''x'')]
   \<and> sse_frames [ascii ''event: a\<newline>data: x\<newline>\<newline>''] = [(str ''a'', str ''x'')]
   \<and> sse_frames [ascii ''data: x\<newline>'', ascii ''event: a\<newline>\<newline>''] = []
   \<and> sse_frames [ascii ''event: a\<newline>'', ascii ''data: x\<newline>\<newline>''] = [(message, str ''x'')]
   \<and> sse_frames [ascii ''data: 1\<newline>data: x\<newline>\<newline>''] = [(message, str ''x'')]
   \<and> sse_frames [ascii ''data: 1\<newline>data: x\<newline>'', ascii ''\<newline>''] = []"
proof -
  have a: "sse_frames [ascii ''data: x\<newline>event: a\<newline>\<newline>''] = [(str ''a'', str ''x'')]"
    by (subst sse_frames_ascii) (simp_all add: text_eval)
  have b: "sse_frames [ascii ''event: a\<newline>data: x\<newline>\<newline>''] = [(str ''a'', str ''x'')]"
    by (subst sse_frames_ascii) (simp_all add: text_eval)
  have c: "sse_frames [ascii ''data: x\<newline>'', ascii ''event: a\<newline>\<newline>''] = []"
    by (subst sse_frames_ascii) (simp_all add: text_eval)
  have d: "sse_frames [ascii ''event: a\<newline>'', ascii ''data: x\<newline>\<newline>''] = [(message, str ''x'')]"
    by (subst sse_frames_ascii) (simp_all add: text_eval)
  have e: "sse_frames [ascii ''data: 1\<newline>data: x\<newline>\<newline>''] = [(message, str ''x'')]"
    by (subst sse_frames_ascii) (simp_all add: text_eval)
  have f: "sse_frames [ascii ''data: 1\<newline>data: x\<newline>'', ascii ''\<newline>''] = []"
    by (subst sse_frames_ascii) (simp_all add: text_eval)
  from a b c d e f show ?thesis
    by (simp only: simp_thms)
qed

section \<open>Lines that are neither \<open>event: \<close>, \<open>data: \<close> nor empty\<close>

text \<open>
  C10. A complete line that is not empty and starts neither with the prefix \<open>event: \<close>
  nor with the prefix \<open>data: \<close>, space included, is ignored by the line loop and by the
  loop over the remaining buffer: nothing is yielded and the current event kind and
  payload stay as they are. The code cuts the prefixes off at 7 and at 6 characters, which
  are their lengths.
\<close>

theorem C10_other_lines_ignored:
  assumes "\<not> startsWith l event_prefix" "\<not> startsWith l data_prefix" "l \<noteq> []"
  shows "length event_prefix = 7 \<and> length data_prefix = 6
         \<and> process_line l st = (None, st) \<and> flush_line l st = st"
  using assms
  by (cases st) (simp add: process_line_def flush_line_def event_prefix_length data_prefix_length)

text \<open>The line \<open>data:x\<close>, written without the space, is such a line.\<close>

theorem C10_other_lines_ignored_witness:
  "\<not> startsWith (str ''data:x'') event_prefix \<and> \<not> startsWith (str ''data:x'') data_prefix
   \<and> str ''data:x'' \<noteq> []
   \<and> process_line (str ''data:x'') (str ''a'', str ''p'') = (None, (str ''a'', str ''p''))
   \<and> flush_line (str ''data:x'') (str ''a'', str ''p'') = (str ''a'', str ''p'')"
proof -
  have h: "\<not> startsWith (str ''data:x'') event_prefix" "\<not> startsWith (str ''data:x'') data_prefix"
    "str ''data:x'' \<noteq> []"
    by (simp_all add: startsWith_def str_def event_prefix_def data_prefix_def)
  show ?thesis
    using h C10_other_lines_ignored [OF h, of "(str ''a'', str ''p'')"] by simp
qed

section \<open>Frames with an empty payload\<close>

text \<open>
  C9. No frame with an empty payload is ever yielded, whatever the stream and however it
  is cut into chunks. A line \<open>data: \<close> with nothing after the prefix sets the payload to
  the empty string; the blank line after it then yields nothing and leaves the state as it
  is, and the loop over the remaining buffer yields nothing for it either.
\<close>

theorem C9_empty_payload_never_emitted:
  "(\<forall>f\<in>set (sse_frames reads). snd f \<noteq> [])
   \<and> process_line data_prefix (ce, cd) = (None, (ce, []))
   \<and> process_line [] (ce, []) = (None, (ce, []))
   \<and> process_remaining emit data_prefix = []"
proof -
  have a: "\<forall>f\<in>set (sse_frames reads). snd f \<noteq> []"
    by (auto dest: sse_frames_payload)
  have b: "process_line data_prefix (ce, cd) = (None, (ce, []))"
    using process_data_line [of "[]" ce cd] by simp
  have c: "process_line [] (ce, []) = (None, (ce, []))"
    by (simp add: process_blank_line)
  have "split_nl data_prefix = [data_prefix]"
    by (simp add: data_prefix_def str_def LF_def split_nl_Cons)
  then have d: "process_remaining emit data_prefix = []"
    using data_line [of "[]"] data_line_not_event [of "[]"]
    by (simp add: process_remaining_def flush_line_def slice_def data_prefix_length
        del: data_line data_line_not_event)
  from a b c d show ?thesis
    by simp
qed

lemma empty_payload_example:
  "sse_frames [ascii ''data: \<newline>\<newline>data: x\<newline>\<newline>''] = [(message, str ''x'')]"
  by (subst sse_frames_ascii) (simp_all add: text_eval)

theorem C9_empty_payload_never_emitted_witness:
  "sse_frames [ascii ''data: \<newline>\<newline>data: x\<newline>\<newline>''] = [(message, str ''x'')]
   \<and> snd (hd (sse_frames [ascii ''data: \<newline>\<newline>data: x\<newline>\<newline>''])) \<noteq> []
   \<and> sse_frames [ascii ''data: \<newline>\<newline>''] = []
   \<and> sse_frames [ascii ''data: ''] = []"
proof -
  have e2: "sse_frames [ascii ''data: \<newline>\<newline>''] = []"
    by (subst sse_frames_ascii) (simp_all add: text_eval)
  have e3: "sse_frames [ascii ''data: ''] = []"
    by (subst sse_frames_ascii) (simp_all add: text_eval)
  show ?thesis
    using C9_empty_payload_never_emitted
      [of "[ascii ''data: \<newline>\<newline>data: x\<newline>\<newline>'']" "[]" "[]" "\<lambda>f. f"] empty_payload_example e2 e3
    by simp
qed

section \<open>Payloads that are not JSON\<close>

text \<open>
  C6. For a successful response with a body, \<open>verifyClaimStream\<close> never fails, whatever
  \<open>JSON.parse\<close> does: it yields one event per frame, and a frame whose payload
  \<open>JSON.parse\<close> rejects is yielded with the payload string itself, unchanged, as its
  data.
\<close>

theorem C6_malformed_json_kept_as_string:
  assumes "ok response" "body response = Some reads"
  shows "verifyClaimStream JSON_parse response = Inr (map (yield_event JSON_parse) (sse_frames reads))
         \<and> (\<forall>f\<in>set (sse_frames reads). JSON_parse (snd f) = None \<longrightarrow>
              yield_event JSON_parse f = \<lparr>event = fst f, data = JStr (snd f)\<rparr>)"
  using assms
  by (auto simp: verifyClaimStream_def stream_body_frames yield_event_def split: prod.splits)

theorem C6_malformed_json_kept_as_string_witness:
  "verifyClaimStream (\<lambda>s. None :: example_number json option) \<lparr>status = 200, body = Some [ascii ''data: {invalid json\<newline>\<newline>'']\<rparr>
     = Inr [\<lparr>event = message, data = JStr (str ''{invalid json'')\<rparr>]"
proof -
  have e: "sse_frames [ascii ''data: {invalid json\<newline>\<newline>''] = [(message, str ''{invalid json'')]"
    by (subst sse_frames_ascii) (simp_all add: text_eval)
  have h: "ok \<lparr>status = 200, body = Some [ascii ''data: {invalid json\<newline>\<newline>'']\<rparr>"
    "body \<lparr>status = 200, body = Some [ascii ''data: {invalid json\<newline>\<newline>'']\<rparr>
       = Some [ascii ''data: {invalid json\<newline>\<newline>'']"
    by (simp_all add: ok_def)
  show ?thesis
    using C6_malformed_json_kept_as_string [OF h, of "\<lambda>s. None :: example_number json option"]
    by (simp add: e)
qed

section \<open>Responses that are not streamed\<close>

text \<open>
  C4. A response whose status is outside 200..299 makes \<open>verifyClaimStream\<close> throw,
  before anything is yielded, one error whose message is \<open>WebCite API error (\<close>, the
  status in decimal, \<open>): \<close> and the text of the response body. A response with a
  success status and no body makes it throw the error \<open>No response body received from
  streaming endpoint\<close>, again with nothing yielded.
\<close>

theorem C4_transport_errors:
  "(\<not> ok response \<longrightarrow>
      verifyClaimStream JSON_parse response =
        Inl (Error (str ''WebCite API error ('' @ number_to_string (status response)
                     @ str ''): '' @ response_text response)))
   \<and> (ok response \<and> body response = None \<longrightarrow>
      verifyClaimStream JSON_parse response =
        Inl (Error (str ''No response body received from streaming endpoint'')))"
  by (simp add: verifyClaimStream_def)

theorem C4_transport_errors_witness:
  "verifyClaimStream (\<lambda>s. None :: example_number json option) \<lparr>status = 429, body = Some [ascii ''rate limited'']\<rparr>
     = Inl (Error (str ''WebCite API error (429): rate limited''))
   \<and> verifyClaimStream (\<lambda>s. None :: example_number json option) \<lparr>status = 200, body = None\<rparr>
     = Inl (Error (str ''No response body received from streaming endpoint''))"
proof -
  have "number_to_string 4 = [52]"
    by (subst number_to_string.simps) simp
  then have "number_to_string 42 = [52, 50]"
    by (subst number_to_string.simps) simp
  then have n: "number_to_string 429 = str ''429''"
    by (subst number_to_string.simps) (simp add: str_def)
  have "decode_flush new_decoder (ascii ''rate limited'') = map unat (ascii ''rate limited'')"
    by (rule decode_flush_ascii) (simp add: ascii_def)
  then have t: "response_text \<lparr>status = 429, body = Some [ascii ''rate limited'']\<rparr> = str ''rate limited''"
    by (simp add: response_text_def map_unat_ascii)
  have s: "str ''WebCite API error ('' @ str ''429'' @ str ''): '' @ str ''rate limited''
           = str ''WebCite API error (429): rate limited''"
    by (simp add: str_def)
  show ?thesis
    using C4_transport_errors [of "\<lparr>status = 429, body = Some [ascii ''rate limited'']\<rparr>" "\<lambda>s. None :: example_number json option"]
      C4_transport_errors [of "\<lparr>status = 200, body = None\<rparr>" "\<lambda>s. None :: example_number json option"]
    by (simp add: ok_def n t s)
qed

section \<open>A final event decides the result\<close>

text \<open>
  C2. When the events include one whose kind is \<open>complete\<close>, \<open>result\<close> or \<open>done\<close> and
  whose data is an object, \<open>collectStreamEvents\<close> returns the data of the last such event,
  together with all the events. Nothing is accumulated: the result is the one the final
  events alone would give, so \<open>claim_group\<close> events, \<open>credit_usage\<close> events and
  snapshots with a \<open>claim_groups\<close> field have no effect on it.
\<close>

theorem C2_last_final_event_wins:
  assumes "\<exists>e\<in>set stream. is_final_event e"
  shows "collectStreamEvents ops stream
           = Inr (Some (FromEvent (data (last (filter is_final_event stream)))), stream)
         \<and> map_sum (\<lambda>e. e) fst (collectStreamEvents ops stream)
           = map_sum (\<lambda>e. e) fst (collectStreamEvents ops (filter is_final_event stream))"
proof -
  from assms have "filter is_final_event stream \<noteq> []"
    by (auto simp: filter_empty_conv)
  then show ?thesis
    by (simp add: collectStreamEvents_def final_event_data_filter)
qed

theorem C2_last_final_event_wins_witness:
  "collectStreamEvents example_ops
     [\<lparr>event = str ''claim_group'', data = JObj [(str ''citation_count'', JNum (Whole 2))]\<rparr>,
      \<lparr>event = str ''done'', data = JObj [(str ''thread_id'', JStr (str ''t0''))]\<rparr>,
      \<lparr>event = str ''message'', data = JObj [(str ''claim_groups'', JArr [])]\<rparr>,
      \<lparr>event = str ''complete'', data = JObj [(str ''claim_groups'', JArr []),
         (str ''totalResults'', JNum (Whole 0)), (str ''thread_id'', JStr (str ''t1''))]\<rparr>,
      \<lparr>event = str ''result'', data = JStr (str ''late'')\<rparr>]
   = Inr (Some (FromEvent (JObj [(str ''claim_groups'', JArr []),
         (str ''totalResults'', JNum (Whole 0)), (str ''thread_id'', JStr (str ''t1''))])),
      [\<lparr>event = str ''claim_group'', data = JObj [(str ''citation_count'', JNum (Whole 2))]\<rparr>,
       \<lparr>event = str ''done'', data = JObj [(str ''thread_id'', JStr (str ''t0''))]\<rparr>,
       \<lparr>event = str ''message'', data = JObj [(str ''claim_groups'', JArr [])]\<rparr>,
       \<lparr>event = str ''complete'', data = JObj [(str ''claim_groups'', JArr []),
          (str ''totalResults'', JNum (Whole 0)), (str ''thread_id'', JStr (str ''t1''))]\<rparr>,
       \<lparr>event = str ''result'', data = JStr (str ''late'')\<rparr>])"
  (is "collectStreamEvents example_ops ?s = _")
proof -
  have h: "\<exists>e\<in>set ?s. is_final_event e"
    by (simp add: event_eval)
  show ?thesis
    using C2_last_final_event_wins [OF h, of example_ops, THEN conjunct1]
    by (simp add: event_eval)
qed

section \<open>The result assembled from claim groups\<close>

text \<open>
  C5, as amended. When no event is a final event and no event carries a snapshot, and at
  least one \<open>claim_group\<close> event has an object as data, \<open>collectStreamEvents\<close> builds the
  result itself unless adding a \<open>citation_count\<close> throws: \<open>claim_groups\<close> is the list of
  the group objects in arrival order, \<open>thread_id\<close> is the last truthy \<open>thread_id\<close> found
  on an object payload (the empty string when there was none), \<open>credit_usage\<close> is the data
  of the last \<open>credit_usage\<close> event with an object payload (absent when there was none),
  and \<open>totalResults\<close> is what the language's \<open>+\<close> gives, from \<open>0\<close>, over the groups'
  \<open>citation_count\<close> in arrival order. When every group's \<open>citation_count\<close> is a number
  the function does not throw, and \<open>totalResults\<close> is the sum of these numbers, added from
  the left.
\<close>

theorem C5_result_assembled_from_groups:
  assumes "\<forall>e\<in>set stream. \<not> is_final_event e"
    and "\<forall>e\<in>set stream. \<not> is_snapshot ops e"
    and "\<exists>e\<in>set stream. is_group_event e"
  shows "collectStreamEvents ops stream =
           (case reduce_citation_count ops (NumberSum (num_zero ops)) (accumulated_groups stream) of
              Inl e \<Rightarrow> Inl e
            | Inr tot \<Rightarrow>
                Inr (Some (Assembled (accumulated_groups stream) tot
                             (last_thread_id ops stream) (last_credit_usage stream)), stream))
         \<and> ((\<forall>g\<in>set (accumulated_groups stream). numeric_count g \<noteq> None) \<longrightarrow>
              collectStreamEvents ops stream =
                Inr (Some (Assembled (accumulated_groups stream)
                             (NumberSum (foldl (num_add ops) (num_zero ops)
                                (map (\<lambda>g. the (numeric_count g)) (accumulated_groups stream))))
                             (last_thread_id ops stream) (last_credit_usage stream)), stream))"
proof -
  note shape = collect_without_final_event [OF assms]
  have "collectStreamEvents ops stream =
          Inr (Some (Assembled (accumulated_groups stream)
                       (NumberSum (foldl (num_add ops) (num_zero ops)
                          (map (\<lambda>g. the (numeric_count g)) (accumulated_groups stream))))
                       (last_thread_id ops stream) (last_credit_usage stream)), stream)"
    if "\<forall>g\<in>set (accumulated_groups stream). numeric_count g \<noteq> None"
    using shape reduce_numeric_counts [OF that, of ops "num_zero ops"] by simp
  with shape show ?thesis
    by blast
qed

theorem C5_result_assembled_from_groups_witness:
  "collectStreamEvents example_ops
     [\<lparr>event = str ''claim_group'', data = JObj [(str ''claim_id'', JStr (str ''a'')),
         (str ''citation_count'', JNum (Whole 2)), (str ''thread_id'', JStr (str ''t1''))]\<rparr>,
      \<lparr>event = str ''credit_usage'', data = JObj [(str ''credits_used'', JNum (Whole 1))]\<rparr>,
      \<lparr>event = str ''done'', data = JStr (str ''bye'')\<rparr>,
      \<lparr>event = str ''claim_group'', data = JObj [(str ''claim_id'', JStr (str ''b'')),
         (str ''citation_count'', JNum (Whole 3))]\<rparr>]
   = Inr (Some (Assembled
        [JObj [(str ''claim_id'', JStr (str ''a'')),
           (str ''citation_count'', JNum (Whole 2)), (str ''thread_id'', JStr (str ''t1''))],
         JObj [(str ''claim_id'', JStr (str ''b'')), (str ''citation_count'', JNum (Whole 3))]]
        (NumberSum (Whole 5)) (JStr (str ''t1''))
        (Some (JObj [(str ''credits_used'', JNum (Whole 1))]))),
      [\<lparr>event = str ''claim_group'', data = JObj [(str ''claim_id'', JStr (str ''a'')),
          (str ''citation_count'', JNum (Whole 2)), (str ''thread_id'', JStr (str ''t1''))]\<rparr>,
       \<lparr>event = str ''credit_usage'', data = JObj [(str ''credits_used'', JNum (Whole 1))]\<rparr>,
       \<lparr>event = str ''done'', data = JStr (str ''bye'')\<rparr>,
       \<lparr>event = str ''claim_group'', data = JObj [(str ''claim_id'', JStr (str ''b'')),
          (str ''citation_count'', JNum (Whole 3))]\<rparr>])"
  (is "collectStreamEvents example_ops ?s = _")
proof -
  have h: "\<forall>e\<in>set ?s. \<not> is_final_event e" "\<forall>e\<in>set ?s. \<not> is_snapshot example_ops e"
    "\<exists>e\<in>set ?s. is_group_event e"
    by (simp_all add: event_eval)
  have g: "\<forall>g\<in>set (accumulated_groups ?s). numeric_count g \<noteq> None"
    by (simp add: event_eval)
  show ?thesis
    using C5_result_assembled_from_groups [OF h, THEN conjunct2] g
    by (simp add: event_eval)
qed

text \<open>
  C5 as stated has \<open>totalResults\<close> equal to the sum of the counts, and \<open>thread_id\<close> equal
  to the last one observed, for every such event sequence. A group without a
  \<open>citation_count\<close> makes \<open>totalResults\<close> \<open>NaN\<close>; a group whose \<open>citation_count\<close> is the
  string \<open>2\<close>, followed by one with the number \<open>3\<close>, makes it the string \<open>023\<close>; and a
  \<open>thread_id\<close> that is the empty string, observed after \<open>t1\<close>, leaves \<open>t1\<close> in the
  result.
\<close>

theorem C5_total_not_a_sum_counterexample:
  "collectStreamEvents example_ops
     [\<lparr>event = str ''claim_group'', data = JObj [(str ''claim_id'', JStr (str ''a''))]\<rparr>]
   = Inr (Some (Assembled [JObj [(str ''claim_id'', JStr (str ''a''))]]
                  (NumberSum NaN) (JStr []) None),
          [\<lparr>event = str ''claim_group'', data = JObj [(str ''claim_id'', JStr (str ''a''))]\<rparr>])
   \<and> collectStreamEvents example_ops
     [\<lparr>event = str ''claim_group'', data = JObj [(str ''citation_count'', JStr (str ''2''))]\<rparr>,
      \<lparr>event = str ''claim_group'', data = JObj [(str ''citation_count'', JNum (Whole 3))]\<rparr>]
   = Inr (Some (Assembled [JObj [(str ''citation_count'', JStr (str ''2''))],
                           JObj [(str ''citation_count'', JNum (Whole 3))]]
                  (StringSum (str ''023'')) (JStr []) None),
          [\<lparr>event = str ''claim_group'', data = JObj [(str ''citation_count'', JStr (str ''2''))]\<rparr>,
           \<lparr>event = str ''claim_group'', data = JObj [(str ''citation_count'', JNum (Whole 3))]\<rparr>])
   \<and> collectStreamEvents example_ops
     [\<lparr>event = str ''claim_group'', data = JObj [(str ''citation_count'', JNum (Whole 2)),
         (str ''thread_id'', JStr (str ''t1''))]\<rparr>,
      \<lparr>event = str ''progress'', data = JObj [(str ''thread_id'', JStr [])]\<rparr>]
   = Inr (Some (Assembled [JObj [(str ''citation_count'', JNum (Whole 2)),
                             (str ''thread_id'', JStr (str ''t1''))]]
                  (NumberSum (Whole 2)) (JStr (str ''t1'')) None),
          [\<lparr>event = str ''claim_group'', data = JObj [(str ''citation_count'', JNum (Whole 2)),
              (str ''thread_id'', JStr (str ''t1''))]\<rparr>,
           \<lparr>event = str ''progress'', data = JObj [(str ''thread_id'', JStr [])]\<rparr>])"
  by (simp add: collectStreamEvents_def assemble_event_def assembly0_def add_citation_count_def
      is_final_event_def example_ops_def str_def number_to_string_digit)

section \<open>Chunk boundaries inside a frame\<close>

text \<open>
  C1. The frames depend on where the chunk boundaries fall. The bytes of the frame
  \<open>event: a\<close>, \<open>data: x\<close>, blank line give the frame \<open>(a, x)\<close> when they arrive
  in one chunk. Cut after the \<open>event:\<close> line, or inside the \<open>data:\<close> line, the same
  bytes give \<open>(message, x)\<close>: the event kind set in the first read is gone in the
  second. Cut before the blank line they give no frame at all.
\<close>

theorem C1_frame_cut_by_chunk_boundary:
  "sse_frames [ascii ''event: a\<newline>data: x\<newline>\<newline>''] = [(str ''a'', str ''x'')]
   \<and> sse_frames [ascii ''event: a\<newline>'', ascii ''data: x\<newline>\<newline>''] = [(message, str ''x'')]
   \<and> sse_frames [ascii ''event: a\<newline>da'', ascii ''ta: x\<newline>\<newline>''] = [(message, str ''x'')]
   \<and> sse_frames [ascii ''event: a\<newline>data: x\<newline>'', ascii ''\<newline>''] = []"
proof -
  have a: "sse_frames [ascii ''event: a\<newline>data: x\<newline>\<newline>''] = [(str ''a'', str ''x'')]"
    by (subst sse_frames_ascii) (simp_all add: text_eval)
  have b: "sse_frames [ascii ''event: a\<newline>'', ascii ''data: x\<newline>\<newline>''] = [(message, str ''x'')]"
    by (subst sse_frames_ascii) (simp_all add: text_eval)
  have c: "sse_frames [ascii ''event: a\<newline>da'', ascii ''ta: x\<newline>\<newline>''] = [(message, str ''x'')]"
    by (subst sse_frames_ascii) (simp_all add: text_eval)
  have d: "sse_frames [ascii ''event: a\<newline>data: x\<newline>'', ascii ''\<newline>''] = []"
    by (subst sse_frames_ascii) (simp_all add: text_eval)
  from a b c d show ?thesis
    by (simp only: simp_thms)
qed

section \<open>A stream that ends after a \<open>data:\<close> line\<close>

text \<open>
  C3. With the blank line present, the stream \<open>data: x\<close> gives the frame
  \<open>(message, x)\<close>, and so does the stream that ends right after \<open>data: x\<close> with no
  line feed. When the \<open>data:\<close> line is terminated by a line feed and the stream ends
  there, no frame is yielded; and when an \<open>event: a\<close> line precedes an unterminated
  \<open>data: x\<close>, the frame yielded has the kind \<open>message\<close>, not \<open>a\<close>.
\<close>

theorem C3_frame_at_end_of_stream:
  "sse_frames [ascii ''data: x\<newline>\<newline>''] = [(message, str ''x'')]
   \<and> sse_frames [ascii ''data: x''] = [(message, str ''x'')]
   \<and> sse_frames [ascii ''data: x\<newline>''] = []
   \<and> sse_frames [ascii ''event: a\<newline>data: x''] = [(message, str ''x'')]
   \<and> sse_frames [ascii ''event: a\<newline>data: x\<newline>''] = []"
proof -
  have a: "sse_frames [ascii ''data: x\<newline>\<newline>''] = [(message, str ''x'')]"
    by (subst sse_frames_ascii) (simp_all add: text_eval)
  have b: "sse_frames [ascii ''data: x''] = [(message, str ''x'')]"
    by (subst sse_frames_ascii) (simp_all add: text_eval)
  have c: "sse_frames [ascii ''data: x\<newline>''] = []"
    by (subst sse_frames_ascii) (simp_all add: text_eval)
  have d: "sse_frames [ascii ''event: a\<newline>data: x''] = [(message, str ''x'')]"
    by (subst sse_frames_ascii) (simp_all add: text_eval)
  have e: "sse_frames [ascii ''event: a\<newline>data: x\<newline>''] = []"
    by (subst sse_frames_ascii) (simp_all add: text_eval)
  from a b c d e show ?thesis
    by (simp only: simp_thms)
qed

section \<open>Characters that span chunks, and bytes left over at the end\<close>

text \<open>
  C7, as amended. The text the parser receives does not depend on how the bytes are cut
  into chunks: the strings decoded chunk by chunk, joined, are the streaming decoding of
  all the bytes at once, so a multi-byte character whose encoding spans two chunks is
  decoded as if it had arrived whole. The frames are computed from these strings alone;
  the decoder is never flushed. A final chunk that decodes to nothing, such as the first
  bytes of a character that never completes, leaves the result as it was without it: the
  dangling bytes are dropped.
\<close>

theorem C7_decoding_across_chunks:
  "concat (decode_each new_decoder reads) = snd (decode_stream new_decoder (concat reads))
   \<and> stream_body emit reads =
       fst (text_loop emit (decode_each new_decoder reads) [])
       @ process_remaining emit (snd (text_loop emit (decode_each new_decoder reads) []))
   \<and> (snd (decode_stream (decoder_after new_decoder reads) tail) = [] \<longrightarrow>
        stream_body emit (reads @ [tail]) = stream_body emit reads)"
proof -
  let ?ts = "decode_each new_decoder reads"
  have a: "concat ?ts = snd (decode_stream new_decoder (concat reads))"
    by (simp add: decode_each_concat)
  have b: "stream_body emit reads =
       fst (text_loop emit ?ts []) @ process_remaining emit (snd (text_loop emit ?ts []))"
    by (rule stream_body_text)
  have c: "stream_body emit (reads @ [tail]) = stream_body emit reads"
    if "snd (decode_stream (decoder_after new_decoder reads) tail) = []"
  proof -
    from that have "decode_each new_decoder (reads @ [tail]) = ?ts @ [[]]"
      by (simp add: decode_each_append split_beta)
    moreover have "LF \<notin> set (snd (text_loop emit ?ts []))"
      by (rule text_loop_buffer_no_LF) simp
    ultimately show ?thesis
      by (simp add: stream_body_text text_loop_append text_loop_empty_chunk
          del: text_loop.simps)
  qed
  from a b c show ?thesis
    by blast
qed

theorem C7_decoding_across_chunks_witness:
  "concat (decode_each new_decoder [ascii ''data: '' @ [0xE2], [0x82, 0xAC]])
     = str ''data: '' @ [0x20AC]
   \<and> stream_body (\<lambda>f. f) [ascii ''data: x'', [0xE2, 0x82]] = [(message, str ''x'')]"
proof -
  have d: "snd (decode_stream new_decoder (concat [ascii ''data: '' @ [0xE2], [0x82, 0xAC]]))
             = str ''data: '' @ [0x20AC]"
    by (simp add: decoder_eval str_def)
  have "decoder_after new_decoder [ascii ''data: x''] = new_decoder\<lparr>bom_seen := True\<rparr>"
    by (simp add: decode_stream_ascii ascii_def new_decoder_def)
  then have h: "snd (decode_stream (decoder_after new_decoder [ascii ''data: x'']) [0xE2, 0x82]) = []"
    by (simp add: decoder_eval)
  have e: "sse_frames [ascii ''data: x''] = [(message, str ''x'')]"
    by (subst sse_frames_ascii) (simp_all add: text_eval)
  have "stream_body (\<lambda>f. f) ([ascii ''data: x''] @ [[0xE2, 0x82]]) = sse_frames [ascii ''data: x'']"
    using C7_decoding_across_chunks [of "[ascii ''data: x'']" "\<lambda>f. f" "[0xE2, 0x82]"] h
    by (simp only: sse_frames_def)
  moreover have "concat (decode_each new_decoder [ascii ''data: '' @ [0xE2], [0x82, 0xAC]])
      = snd (decode_stream new_decoder (concat [ascii ''data: '' @ [0xE2], [0x82, 0xAC]]))"
    using C7_decoding_across_chunks [of "[ascii ''data: '' @ [0xE2], [0x82, 0xAC]]" "\<lambda>f. f" "[]"]
    by (rule conjunct1)
  ultimately show ?thesis
    using d e by simp
qed

text \<open>
  C7 as stated has the dangling bytes resolved. The stream \<open>data: x\<close> followed by the
  first two bytes of a three-byte character gives the same frame as the stream without
  them, while the flushing decoding of the same bytes ends in U+FFFD.
\<close>

theorem C7_dangling_bytes_dropped_counterexample:
  "sse_frames [ascii ''data: x'' @ [0xE2, 0x82]] = [(message, str ''x'')]
   \<and> sse_frames [ascii ''data: x''] = [(message, str ''x'')]
   \<and> decode_flush new_decoder (ascii ''data: x'' @ [0xE2, 0x82]) = str ''data: x'' @ [0xFFFD]"
proof -
  have "decode_each new_decoder [ascii ''data: x'' @ [0xE2, 0x82]] = [str ''data: x'']"
    by (simp add: decoder_eval str_def)
  then have a: "sse_frames [ascii ''data: x'' @ [0xE2, 0x82]] = [(message, str ''x'')]"
    by (simp add: sse_frames_text text_eval)
  have b: "sse_frames [ascii ''data: x''] = [(message, str ''x'')]"
    by (subst sse_frames_ascii) (simp_all add: text_eval)
  have c: "decode_flush new_decoder (ascii ''data: x'' @ [0xE2, 0x82]) = str ''data: x'' @ [0xFFFD]"
    by (simp add: decoder_eval str_def)
  from a b c show ?thesis
    by (simp only: simp_thms)
qed

end
